theory Spec2Isabelle
  imports Main "HOL-Library.Word"
begin

unbundle bit_operations_syntax

section \<open>Python values used by both programs\<close>

text \<open>
  The two programs \<^verbatim>\<open>bloom.py\<close> (build) and \<^verbatim>\<open>query.py\<close> (query) work on
  \<^verbatim>\<open>bytes\<close> objects, unbounded integers and lists. Bytes objects are modelled as
  \<^typ>\<open>string\<close> (a \<^typ>\<open>char\<close> is one byte), Python integers as \<^typ>\<open>int\<close>, and
  every exception the interpreter can raise in the modelled code is a value of
  \<open>py_error\<close>; a function that can raise returns \<open>py_error + 'a\<close>.
\<close>

datatype py_error = IndexError | ValueError | ZeroDivisionError | OSError

text \<open>
  Subscripting \<^verbatim>\<open>xs[i]\<close>: a negative index counts from the end, an index outside the
  object raises \<^verbatim>\<open>IndexError\<close>. \<open>py_index\<close> gives the cell that is accessed.
\<close>

definition py_index :: "'a list \<Rightarrow> int \<Rightarrow> nat option" where
  "py_index xs i =
     (let n = int (length xs); j = (if i < 0 then n + i else i)
      in if 0 \<le> j \<and> j < n then Some (nat j) else None)"

section \<open>Parameters of the filter\<close>

text \<open>
  The module-level settings of both programs. The functions below take \<open>k\<close> and
  \<open>bitfieldsize\<close> as arguments; these constants are the values the source assigns.
\<close>

definition bloom_n :: int where "bloom_n = 3000000000"
definition bloom_m :: int where "bloom_m = 34359738368"
definition bloom_k :: nat where "bloom_k = 4"
definition bloom_bitfieldsize :: nat where "bloom_bitfieldsize = 35"

text \<open>
  \<^verbatim>\<open>round(m/8)\<close>: true division followed by rounding to the nearest integer, ties to
  the even neighbour. The quotient by 8 is exact in binary floating point for
  every \<open>m\<close> below \<open>2 ^ 53\<close>, so the result is determined by \<open>m div 8\<close> and \<open>m mod 8\<close>.
\<close>

definition round_div8 :: "int \<Rightarrow> int" where
  "round_div8 m =
     (let q = m div 8; r = m mod 8
      in if r < 4 then q else if 4 < r then q + 1 else if even q then q else q + 1)"

definition bloom_bytes :: nat where
  "bloom_bytes = nat (round_div8 bloom_m)"

text \<open>\<^verbatim>\<open>bloomfilter = bytearray(round(m/8))\<close>: that many zero bytes.\<close>

definition empty_bloomfilter :: "8 word list" where
  "empty_bloomfilter = replicate bloom_bytes 0"

section \<open>Hashing a k-mer and slicing the hash\<close>

text \<open>
  \<^verbatim>\<open>hashit\<close> feeds the k-mer to \<^verbatim>\<open>hashlib.sha256\<close> and reads the 32-byte digest as
  one unsigned integer with \<^verbatim>\<open>int.from_bytes(..., byteorder=sys.byteorder)\<close>. The
  digest function of the library is the argument \<open>sha\<close>; \<^verbatim>\<open>sys.byteorder\<close>, the
  native byte order of the machine the interpreter runs on, is the argument \<open>bo\<close>.
\<close>

datatype byteorder = Little | Big

fun from_bytes_little :: "string \<Rightarrow> int" where
  "from_bytes_little [] = 0"
| "from_bytes_little (b # bs) = of_char b + 256 * from_bytes_little bs"

fun from_bytes :: "string \<Rightarrow> byteorder \<Rightarrow> int" where
  "from_bytes bs Little = from_bytes_little bs"
| "from_bytes bs Big = from_bytes_little (rev bs)"

text \<open>\<^verbatim>\<open>hashit\<close> of \<^verbatim>\<open>bloom.py\<close>.\<close>

definition hashit :: "(string \<Rightarrow> string) \<Rightarrow> byteorder \<Rightarrow> string \<Rightarrow> int" where
  "hashit sha bo kmer = from_bytes (sha kmer) bo"

text \<open>\<^verbatim>\<open>hashit\<close> of \<^verbatim>\<open>query.py\<close>, a separate definition in the second program.\<close>

definition query_hashit :: "(string \<Rightarrow> string) \<Rightarrow> byteorder \<Rightarrow> string \<Rightarrow> int" where
  "query_hashit sha bo kmer = from_bytes (sha kmer) bo"

text \<open>
  \<^verbatim>\<open>nextposition\<close> of \<^verbatim>\<open>bloom.py\<close>: the low \<open>bitfieldsize\<close> bits are the position,
  split into a byte and a bit position; the used slice is shifted out.
\<close>

definition nextposition :: "nat \<Rightarrow> int \<Rightarrow> int \<times> int \<times> int" where
  "nextposition bitfieldsize hashnumber =
     (let position = hashnumber AND (2 ^ bitfieldsize - 1);
          byteposition = drop_bit 3 position;
          bitposition = position AND 7;
          hashnumber' = drop_bit bitfieldsize hashnumber
      in (hashnumber', byteposition, bitposition))"

text \<open>\<^verbatim>\<open>nextposition\<close> of \<^verbatim>\<open>query.py\<close>.\<close>

definition query_nextposition :: "nat \<Rightarrow> int \<Rightarrow> int \<times> int \<times> int" where
  "query_nextposition bitfieldsize hashnumber =
     (let position = hashnumber AND (2 ^ bitfieldsize - 1);
          byteposition = drop_bit 3 position;
          bitposition = position AND 7;
          hashnumber' = drop_bit bitfieldsize hashnumber
      in (hashnumber', byteposition, bitposition))"

text \<open>
  The loop \<^verbatim>\<open>for i in range(0, k): hashnumber, byteposition, bitposition =
  nextposition(hashnumber)\<close> that both programs run on a hash, with the pairs it goes
  through collected in order.
\<close>

fun positions :: "nat \<Rightarrow> nat \<Rightarrow> int \<Rightarrow> (int \<times> int) list" where
  "positions 0 bitfieldsize hashnumber = []"
| "positions (Suc k) bitfieldsize hashnumber =
     (case nextposition bitfieldsize hashnumber of
        (hashnumber', byteposition, bitposition) \<Rightarrow>
          (byteposition, bitposition) # positions k bitfieldsize hashnumber')"

fun query_positions :: "nat \<Rightarrow> nat \<Rightarrow> int \<Rightarrow> (int \<times> int) list" where
  "query_positions 0 bitfieldsize hashnumber = []"
| "query_positions (Suc k) bitfieldsize hashnumber =
     (case query_nextposition bitfieldsize hashnumber of
        (hashnumber', byteposition, bitposition) \<Rightarrow>
          (byteposition, bitposition) # query_positions k bitfieldsize hashnumber')"

section \<open>The bit array\<close>

text \<open>
  \<^verbatim>\<open>1 << bitposition\<close> raises \<^verbatim>\<open>ValueError\<close> on a negative shift count.
\<close>

definition shl1 :: "int \<Rightarrow> py_error + int" where
  "shl1 bitposition =
     (if bitposition < 0 then Inl ValueError else Inr (push_bit (nat bitposition) 1))"

text \<open>
  The filter is a \<^verbatim>\<open>bytearray\<close> in \<^verbatim>\<open>bloom.py\<close> and a \<^verbatim>\<open>bytes\<close> object in
  \<^verbatim>\<open>query.py\<close>: a sequence of 8-bit values. Subscripting gives the element as an
  integer (\<open>uint\<close>).

  \<^verbatim>\<open>setbit\<close>: \<^verbatim>\<open>bloomfilter[byteposition] |= 1 << bitposition\<close>. The element is
  read, the shift is evaluated, and the disjunction is stored; a \<^verbatim>\<open>bytearray\<close>
  refuses a value outside \<open>0..255\<close> with \<^verbatim>\<open>ValueError\<close>.
\<close>

definition setbit :: "8 word list \<Rightarrow> int \<Rightarrow> int \<Rightarrow> py_error + 8 word list" where
  "setbit bloomfilter byteposition bitposition =
     (case py_index bloomfilter byteposition of
        None \<Rightarrow> Inl IndexError
      | Some j \<Rightarrow>
          (case shl1 bitposition of
             Inl e \<Rightarrow> Inl e
           | Inr b \<Rightarrow>
               (let v = uint (bloomfilter ! j) OR b
                in if 0 \<le> v \<and> v < 256 then Inr (bloomfilter[j := word_of_int v])
                   else Inl ValueError)))"

text \<open>
  \<^verbatim>\<open>isbitset\<close> of \<^verbatim>\<open>query.py\<close>:
  \<^verbatim>\<open>(bloomfilter[byteposition] & (1 << bitposition)) != 0\<close>.
\<close>

definition isbitset :: "8 word list \<Rightarrow> int \<Rightarrow> int \<Rightarrow> py_error + bool" where
  "isbitset bloomfilter byteposition bitposition =
     (case py_index bloomfilter byteposition of
        None \<Rightarrow> Inl IndexError
      | Some j \<Rightarrow>
          (case shl1 bitposition of
             Inl e \<Rightarrow> Inl e
           | Inr b \<Rightarrow> Inr ((uint (bloomfilter ! j) AND b) \<noteq> 0)))"

text \<open>
  The innermost loop of \<^verbatim>\<open>addtobloomfilter\<close>: \<open>k\<close> rounds of \<^verbatim>\<open>nextposition\<close>, each
  followed by \<^verbatim>\<open>setbit\<close> on the shared filter.
\<close>

fun set_rounds :: "nat \<Rightarrow> nat \<Rightarrow> int \<Rightarrow> 8 word list \<Rightarrow> py_error + 8 word list" where
  "set_rounds 0 bitfieldsize hashnumber bloomfilter = Inr bloomfilter"
| "set_rounds (Suc k) bitfieldsize hashnumber bloomfilter =
     (case nextposition bitfieldsize hashnumber of
        (hashnumber', byteposition, bitposition) \<Rightarrow>
          (case setbit bloomfilter byteposition bitposition of
             Inl e \<Rightarrow> Inl e
           | Inr bloomfilter' \<Rightarrow> set_rounds k bitfieldsize hashnumber' bloomfilter'))"

text \<open>The body of the k-mer loop of \<^verbatim>\<open>addtobloomfilter\<close> for one k-mer \<open>mer\<close>.\<close>

definition add_kmer ::
  "nat \<Rightarrow> nat \<Rightarrow> (string \<Rightarrow> string) \<Rightarrow> byteorder \<Rightarrow> 8 word list \<Rightarrow> string \<Rightarrow> py_error + 8 word list" where
  "add_kmer k bitfieldsize sha bo bloomfilter mer =
     set_rounds k bitfieldsize (hashit sha bo mer) bloomfilter"

text \<open>
  The innermost loop of \<^verbatim>\<open>humansample\<close>: \<^verbatim>\<open>there\<close> starts as \<^verbatim>\<open>True\<close> and is
  cleared by every round whose bit is not set; all \<open>k\<close> rounds are run.
\<close>

fun check_rounds :: "nat \<Rightarrow> nat \<Rightarrow> int \<Rightarrow> 8 word list \<Rightarrow> bool \<Rightarrow> py_error + bool" where
  "check_rounds 0 bitfieldsize hashnumber bloomfilter there = Inr there"
| "check_rounds (Suc k) bitfieldsize hashnumber bloomfilter there =
     (case query_nextposition bitfieldsize hashnumber of
        (hashnumber', byteposition, bitposition) \<Rightarrow>
          (case isbitset bloomfilter byteposition bitposition of
             Inl e \<Rightarrow> Inl e
           | Inr b \<Rightarrow>
               check_rounds k bitfieldsize hashnumber' bloomfilter
                 (if b = False then False else there)))"

text \<open>The membership test of \<^verbatim>\<open>humansample\<close> for one k-mer \<open>mer\<close>.\<close>

definition kmer_there ::
  "nat \<Rightarrow> nat \<Rightarrow> (string \<Rightarrow> string) \<Rightarrow> byteorder \<Rightarrow> 8 word list \<Rightarrow> string \<Rightarrow> py_error + bool" where
  "kmer_there k bitfieldsize sha bo bloomfilter mer =
     check_rounds k bitfieldsize (query_hashit sha bo mer) bloomfilter True"

section \<open>Searching and slicing bytes\<close>

text \<open>
  \<^verbatim>\<open>s.find(c, start)\<close> for a one-byte \<open>c\<close>: the lowest index at or after \<open>start\<close>
  that holds \<open>c\<close>, or \<open>-1\<close>. A negative \<open>start\<close> counts from the end and is clamped
  to 0; a \<open>start\<close> beyond the end finds nothing.
\<close>

fun find_aux :: "char \<Rightarrow> string \<Rightarrow> int \<Rightarrow> int" where
  "find_aux c [] i = - 1"
| "find_aux c (x # xs) i = (if x = c then i else find_aux c xs (i + 1))"

definition bytes_find :: "string \<Rightarrow> char \<Rightarrow> int \<Rightarrow> int" where
  "bytes_find s c start =
     (let n = int (length s);
          st = (if start < 0 then max 0 (start + n) else start)
      in if n < st then - 1 else find_aux c (drop (nat st) s) st)"

text \<open>
  \<^verbatim>\<open>s[i:j]\<close>: both bounds are clamped to the object, negative ones count from the
  end.
\<close>

definition slice_bound :: "nat \<Rightarrow> int \<Rightarrow> nat" where
  "slice_bound n x = (if x < 0 then nat (max 0 (x + int n)) else min (nat x) n)"

definition bytes_slice :: "string \<Rightarrow> int \<Rightarrow> int \<Rightarrow> string" where
  "bytes_slice s i j =
     (let a = slice_bound (length s) i; b = slice_bound (length s) j
      in take (b - a) (drop a s))"

text \<open>
  \<^verbatim>\<open>bytes.maketrans(frm, to)\<close> is the identity table with \<open>frm[i]\<close> mapped to
  \<open>to[i]\<close>; \<^verbatim>\<open>s.translate(table, delete)\<close> removes the bytes of \<open>delete\<close> and maps
  the remaining ones through the table.
\<close>

definition maketrans :: "string \<Rightarrow> string \<Rightarrow> char \<Rightarrow> char" where
  "maketrans frm to = fold (\<lambda>(a, b) t. t(a := b)) (zip frm to) id"

definition bytes_translate :: "(char \<Rightarrow> char) \<Rightarrow> string \<Rightarrow> string \<Rightarrow> string" where
  "bytes_translate table delete s = map table (filter (\<lambda>c. c \<notin> set delete) s)"

text \<open>
  \<^verbatim>\<open>toN = bytes.maketrans(b'MRYKVHDBacgtmrykvhdbxnsw', b'NNNNNNNNACGTNNNNNNNNNNNN')\<close>
  and the deleted bytes \<^verbatim>\<open>b'\r\n\t '\<close>, as in \<^verbatim>\<open>addtobloomfilter\<close> and
  \<^verbatim>\<open>humansample\<close>.
\<close>

definition toN :: "char \<Rightarrow> char" where
  "toN = maketrans ''MRYKVHDBacgtmrykvhdbxnsw'' ''NNNNNNNNACGTNNNNNNNNNNNN''"

definition whitespace :: string where
  "whitespace = [CHR 0x0D, CHR 0x0A, CHR 0x09, CHR '' '']"

definition sanitize :: "string \<Rightarrow> string" where
  "sanitize raw = bytes_translate toN whitespace raw"

section \<open>Indexing a sequence\<close>

text \<open>The bases that \<^verbatim>\<open>indexsequence\<close> looks for.\<close>

definition canonical :: "char \<Rightarrow> bool" where
  "canonical c \<longleftrightarrow> c = CHR ''A'' \<or> c = CHR ''T'' \<or> c = CHR ''G'' \<or> c = CHR ''C''"

text \<open>
  \<^verbatim>\<open>indexsequence\<close> (the same text in both programs). The \<^verbatim>\<open>while\<close> loop is a
  recursive function on the loop variables \<^verbatim>\<open>pointer\<close> and \<^verbatim>\<open>seqindex\<close>; a run
  that never leaves the loop has the value \<open>None\<close>. \<open>find_realstart\<close> is the first half
  of the loop body: \<open>None\<close> is the \<^verbatim>\<open>break\<close>.
\<close>

definition find_realstart :: "string \<Rightarrow> int \<Rightarrow> int option" where
  "find_realstart seq pointer =
     (let potenstart = [bytes_find seq CHR ''A'' pointer, bytes_find seq CHR ''T'' pointer,
                        bytes_find seq CHR ''G'' pointer, bytes_find seq CHR ''C'' pointer];
          realstart = min_list potenstart
      in if realstart = - 1 then
           (let potenstart' = filter (\<lambda>i. - 1 < i) potenstart
            in if length potenstart' = 0 then None else Some (min_list potenstart'))
         else Some realstart)"

definition find_realend :: "string \<Rightarrow> int \<Rightarrow> int" where
  "find_realend seq realstart =
     (let realend = bytes_find seq CHR ''N'' realstart
      in if realend = - 1 then int (length seq) else realend)"

partial_function (option) indexsequence_loop ::
  "string \<Rightarrow> int \<Rightarrow> (int \<times> int) list \<Rightarrow> (int \<times> int) list option" where
  "indexsequence_loop seq pointer seqindex =
     (if pointer < int (length seq) then
        (case find_realstart seq pointer of
           None \<Rightarrow> Some seqindex
         | Some realstart \<Rightarrow>
             indexsequence_loop seq (find_realend seq realstart)
               (seqindex @ [(realstart, find_realend seq realstart)]))
      else Some seqindex)"

declare indexsequence_loop.simps [code]

definition indexsequence :: "string \<Rightarrow> (int \<times> int) list option" where
  "indexsequence seq = indexsequence_loop seq 0 []"

section \<open>Indexing the fasta file\<close>

text \<open>
  \<^verbatim>\<open>indexfasta\<close> (the same text in both programs). The file is its content, a byte
  string; \<^verbatim>\<open>infile.read(chunksize)\<close> takes the next \<open>chunksize\<close> bytes of what has
  not been read.

  The inner loop \<^verbatim>\<open>while chunkpos != -1\<close> collects the offsets of \<^verbatim>\<open>>\<close> in the
  chunk.
\<close>

partial_function (option) find_headers ::
  "string \<Rightarrow> int \<Rightarrow> int \<Rightarrow> int list \<Rightarrow> int list option" where
  "find_headers content chunkpos filepos headstart =
     (if chunkpos \<noteq> - 1 then
        (let chunkpos' = bytes_find content CHR ''>'' chunkpos
         in if chunkpos' \<noteq> - 1
            then find_headers content (chunkpos' + 1) filepos (headstart @ [chunkpos' + filepos])
            else find_headers content chunkpos' filepos headstart)
      else Some headstart)"

declare find_headers.simps [code]

text \<open>
  \<^verbatim>\<open>for i in range(len(headend), len(headstart))\<close>: the range is fixed when the loop
  starts, so every \<open>i\<close> is below \<open>len(headstart)\<close>.
\<close>

fun find_headends :: "string \<Rightarrow> int \<Rightarrow> int list \<Rightarrow> nat list \<Rightarrow> int list \<Rightarrow> int list" where
  "find_headends content filepos headstart [] headend = headend"
| "find_headends content filepos headstart (i # is) headend =
     (let chunkpos = max 0 (headstart ! i - filepos);
          chunkpos' = bytes_find content (CHR 0x0A) chunkpos
      in find_headends content filepos headstart is
           (if chunkpos' \<noteq> - 1 then headend @ [chunkpos' + filepos] else headend))"

text \<open>The outer loop \<^verbatim>\<open>while True\<close> over the chunks of the file.\<close>

partial_function (option) scan_chunks ::
  "nat \<Rightarrow> string \<Rightarrow> int \<Rightarrow> int list \<Rightarrow> int list \<Rightarrow> (int \<times> int list \<times> int list) option" where
  "scan_chunks chunksize rest filepos headstart headend =
     (let content = take chunksize rest
      in if length content = 0 then Some (filepos, headstart, headend)
         else
           (case find_headers content 0 filepos headstart of
              None \<Rightarrow> None
            | Some headstart' \<Rightarrow>
                scan_chunks chunksize (drop chunksize rest) (filepos + int (length content))
                  headstart'
                  (find_headends content filepos headstart'
                     [length headend..<length headstart'] headend)))"

declare scan_chunks.simps [code]

text \<open>
  \<^verbatim>\<open>for i in range(len(headstart)-1, 0, -1)\<close>: the indices are fixed when the loop
  starts. \<^verbatim>\<open>headend[i]\<close> is read first and raises \<^verbatim>\<open>IndexError\<close> beyond the list;
  \<^verbatim>\<open>del headstart[i]\<close> raises it as well.
\<close>

definition del :: "'a list \<Rightarrow> nat \<Rightarrow> 'a list" where
  "del xs i = take i xs @ drop (Suc i) xs"

fun eliminate :: "nat list \<Rightarrow> int list \<Rightarrow> int list \<Rightarrow> py_error + (int list \<times> int list)" where
  "eliminate [] headstart headend = Inr (headstart, headend)"
| "eliminate (i # is) headstart headend =
     (if length headend \<le> i then Inl IndexError
      else if headend ! i = headend ! (i - 1) then
        (if length headstart \<le> i then Inl IndexError
         else eliminate is (del headstart i) (del headend i))
      else eliminate is headstart headend)"

text \<open>
  The last loop builds the tuples
  \<^verbatim>\<open>(headstart[i], headend[i], headend[i]+1, headstart[i+1] - 1)\<close>.
\<close>

type_synonym fastaentry = "int \<times> int \<times> int \<times> int"

fun build_fastaindex :: "nat list \<Rightarrow> int list \<Rightarrow> int list \<Rightarrow> py_error + fastaentry list" where
  "build_fastaindex [] headstart headend = Inr []"
| "build_fastaindex (i # is) headstart headend =
     (if length headstart \<le> i + 1 \<or> length headend \<le> i then Inl IndexError
      else
        (case build_fastaindex is headstart headend of
           Inl e \<Rightarrow> Inl e
         | Inr fastaindex \<Rightarrow>
             Inr ((headstart ! i, headend ! i, headend ! i + 1, headstart ! (i + 1) - 1)
                  # fastaindex)))"

definition indexfasta_chunked :: "nat \<Rightarrow> string \<Rightarrow> (py_error + fastaentry list) option" where
  "indexfasta_chunked chunksize file =
     (case scan_chunks chunksize file 0 [] [] of
        None \<Rightarrow> None
      | Some (filepos, headstart, headend) \<Rightarrow>
          Some (case eliminate (rev [1..<length headstart]) headstart headend of
                  Inl e \<Rightarrow> Inl e
                | Inr (headstart', headend') \<Rightarrow>
                    build_fastaindex [0..<length headend'] (headstart' @ [filepos]) headend'))"

text \<open>\<^verbatim>\<open>chunksize = 1024*1024\<close>.\<close>

definition indexfasta :: "string \<Rightarrow> (py_error + fastaentry list) option" where
  "indexfasta file = indexfasta_chunked (1024 * 1024) file"

section \<open>The two pipelines\<close>

text \<open>
  \<^verbatim>\<open>infile.seek(offset)\<close> followed by \<^verbatim>\<open>infile.read(count)\<close> on a file opened with
  \<^verbatim>\<open>'rb'\<close>: a negative offset is refused by \<^verbatim>\<open>seek\<close>, a count of \<open>-1\<close> reads to the
  end of the file, a count below \<open>-1\<close> is refused by \<^verbatim>\<open>read\<close>.
\<close>

definition file_read :: "string \<Rightarrow> int \<Rightarrow> int \<Rightarrow> py_error + string" where
  "file_read file offset count =
     (if offset < 0 then Inl OSError
      else if count < - 1 then Inl ValueError
      else if count = - 1 then Inr (drop (nat offset) file)
      else Inr (take (nat count) (drop (nat offset) file)))"

text \<open>
  The k-mers both pipelines go through for one sanitized sequence, in loop order:
  \<^verbatim>\<open>for start, stop in seqindex: for i in range(start, stop-kmer+1):
  mer = seq[i:i+kmer]\<close>.
\<close>

definition run_kmers :: "nat \<Rightarrow> string \<Rightarrow> int \<times> int \<Rightarrow> string list" where
  "run_kmers kmer seq = (\<lambda>(start, stop).
     map (\<lambda>i. bytes_slice seq i (i + int kmer)) [start..stop - int kmer])"

definition seq_kmers :: "nat \<Rightarrow> string \<Rightarrow> (int \<times> int) list \<Rightarrow> string list" where
  "seq_kmers kmer seq seqindex = concat (map (run_kmers kmer seq) seqindex)"

text \<open>The k-mer loop of \<^verbatim>\<open>addtobloomfilter\<close> over these k-mers.\<close>

fun add_kmers ::
  "nat \<Rightarrow> nat \<Rightarrow> (string \<Rightarrow> string) \<Rightarrow> byteorder \<Rightarrow> 8 word list \<Rightarrow> string list \<Rightarrow>
   py_error + 8 word list" where
  "add_kmers k bitfieldsize sha bo bloomfilter [] = Inr bloomfilter"
| "add_kmers k bitfieldsize sha bo bloomfilter (mer # mers) =
     (case add_kmer k bitfieldsize sha bo bloomfilter mer of
        Inl e \<Rightarrow> Inl e
      | Inr bloomfilter' \<Rightarrow> add_kmers k bitfieldsize sha bo bloomfilter' mers)"

text \<open>
  \<^verbatim>\<open>addtobloomfilter(filename, fastaindex, kmer)\<close>, with the module-level filter
  passed in and returned. \<open>None\<close>: the call does not return.
\<close>

fun addtobloomfilter ::
  "nat \<Rightarrow> nat \<Rightarrow> (string \<Rightarrow> string) \<Rightarrow> byteorder \<Rightarrow> string \<Rightarrow> fastaentry list \<Rightarrow> nat \<Rightarrow>
   8 word list \<Rightarrow> (py_error + 8 word list) option" where
  "addtobloomfilter k bitfieldsize sha bo file [] kmer bloomfilter = Some (Inr bloomfilter)"
| "addtobloomfilter k bitfieldsize sha bo file (idx # fastaindex) kmer bloomfilter =
     (case idx of (idx0, idx1, idx2, idx3) \<Rightarrow>
        (case file_read file idx2 (idx3 - idx2 + 1) of
           Inl e \<Rightarrow> Some (Inl e)
         | Inr raw \<Rightarrow>
             (let seq = sanitize raw
              in case indexsequence seq of
                   None \<Rightarrow> None
                 | Some seqindex \<Rightarrow>
                     (case add_kmers k bitfieldsize sha bo bloomfilter
                             (seq_kmers kmer seq seqindex) of
                        Inl e \<Rightarrow> Some (Inl e)
                      | Inr bloomfilter' \<Rightarrow>
                          addtobloomfilter k bitfieldsize sha bo file fastaindex kmer
                            bloomfilter'))))"

text \<open>
  The k-mer loop of \<^verbatim>\<open>humansample\<close>: \<^verbatim>\<open>total_kmers\<close> counts every k-mer,
  \<^verbatim>\<open>human_kmers\<close> those whose \<open>k\<close> bits are all set.
\<close>

fun count_kmers ::
  "nat \<Rightarrow> nat \<Rightarrow> (string \<Rightarrow> string) \<Rightarrow> byteorder \<Rightarrow> 8 word list \<Rightarrow> string list \<Rightarrow>
   int \<Rightarrow> int \<Rightarrow> py_error + (int \<times> int)" where
  "count_kmers k bitfieldsize sha bo bloomfilter [] total_kmers human_kmers =
     Inr (total_kmers, human_kmers)"
| "count_kmers k bitfieldsize sha bo bloomfilter (mer # mers) total_kmers human_kmers =
     (case kmer_there k bitfieldsize sha bo bloomfilter mer of
        Inl e \<Rightarrow> Inl e
      | Inr there \<Rightarrow>
          count_kmers k bitfieldsize sha bo bloomfilter mers (total_kmers + 1)
            (if there = True then human_kmers + 1 else human_kmers))"

text \<open>
  What \<^verbatim>\<open>humansample\<close> writes to its output file: byte strings, and the line with
  the quotient \<^verbatim>\<open>human_kmers/total_kmers\<close>. The quotient is a floating-point
  number printed by \<^verbatim>\<open>str\<close>; \<open>Proportion h t\<close> stands for the line
  \<^verbatim>\<open>b'Proportion of 30-mers in common with humans: '\<close> followed by the text of
  \<open>h/t\<close> and two newlines.
\<close>

datatype written = Bytes string | Proportion int int

text \<open>
  \<^verbatim>\<open>humansample(filename, fastaindex, kmer)\<close> on the filter read at module level.
  The result is what has been written to the output file and the exception that
  ended the call, if one did. The true division raises \<^verbatim>\<open>ZeroDivisionError\<close> when
  \<^verbatim>\<open>total_kmers\<close> is 0; the header has been written by then. \<open>None\<close>: the call
  does not return.
\<close>

fun humansample ::
  "nat \<Rightarrow> nat \<Rightarrow> (string \<Rightarrow> string) \<Rightarrow> byteorder \<Rightarrow> 8 word list \<Rightarrow> string \<Rightarrow>
   fastaentry list \<Rightarrow> nat \<Rightarrow> written list \<Rightarrow> (written list \<times> py_error option) option" where
  "humansample k bitfieldsize sha bo bloomfilter file [] kmer outfile = Some (outfile, None)"
| "humansample k bitfieldsize sha bo bloomfilter file (idx # fastaindex) kmer outfile =
     (case idx of (idx0, idx1, idx2, idx3) \<Rightarrow>
        (case file_read file idx0 (idx2 - idx0 - 1) of
           Inl e \<Rightarrow> Some (outfile, Some e)
         | Inr header \<Rightarrow>
             (case file_read file idx2 (idx3 - idx2 + 1) of
                Inl e \<Rightarrow> Some (outfile, Some e)
              | Inr raw \<Rightarrow>
                  (let seq = sanitize raw
                   in case indexsequence seq of
                        None \<Rightarrow> None
                      | Some seqindex \<Rightarrow>
                          (case count_kmers k bitfieldsize sha bo bloomfilter
                                  (seq_kmers kmer seq seqindex) 0 0 of
                             Inl e \<Rightarrow> Some (outfile, Some e)
                           | Inr (total_kmers, human_kmers) \<Rightarrow>
                               (let outfile' = outfile @ [Bytes (header @ [CHR 0x0A])]
                                in if total_kmers = 0
                                   then Some (outfile', Some ZeroDivisionError)
                                   else humansample k bitfieldsize sha bo bloomfilter file
                                          fastaindex kmer
                                          (outfile' @ [Proportion human_kmers total_kmers])))))))"

text \<open>
  The main program of \<^verbatim>\<open>query.py\<close>: index the sample file, then score every
  record against the filter.
\<close>

definition query_main ::
  "nat \<Rightarrow> nat \<Rightarrow> (string \<Rightarrow> string) \<Rightarrow> byteorder \<Rightarrow> 8 word list \<Rightarrow> string \<Rightarrow> nat \<Rightarrow>
   (written list \<times> py_error option) option" where
  "query_main k bitfieldsize sha bo bloomfilter file kmer =
     (case indexfasta file of
        None \<Rightarrow> None
      | Some (Inl e) \<Rightarrow> Some ([], Some e)
      | Some (Inr fastaindex) \<Rightarrow>
          humansample k bitfieldsize sha bo bloomfilter file fastaindex kmer [])"

text \<open>
  The main program of \<^verbatim>\<open>bloom.py\<close>: index the genome file and add its k-mers to
  the empty filter.
\<close>

definition bloom_main ::
  "nat \<Rightarrow> nat \<Rightarrow> (string \<Rightarrow> string) \<Rightarrow> byteorder \<Rightarrow> 8 word list \<Rightarrow> string \<Rightarrow> nat \<Rightarrow>
   (py_error + 8 word list) option" where
  "bloom_main k bitfieldsize sha bo bloomfilter file kmer =
     (case indexfasta file of
        None \<Rightarrow> None
      | Some (Inl e) \<Rightarrow> Some (Inl e)
      | Some (Inr fastaindex) \<Rightarrow>
          addtobloomfilter k bitfieldsize sha bo file fastaindex kmer bloomfilter)"

section \<open>Digests for the examples\<close>

text \<open>
  The examples below need the digests of a few k-mers. \<open>example_sha\<close> agrees with
  \<^verbatim>\<open>hashlib.sha256(kmer).digest()\<close> on the k-mers listed; its value elsewhere is not
  used.
\<close>

definition example_digests :: "(string \<times> nat list) list" where
  "example_digests =
     [(''ACGT'', [29, 255, 62, 132, 254, 120, 119, 224, 103, 59, 105, 187, 221, 207, 64, 18,
                  78, 57, 110, 63, 153, 67, 221, 137, 12, 145, 182, 160, 154, 219, 154, 240]),
      (''CGTA'', [40, 193, 93, 211, 151, 51, 178, 36, 152, 236, 116, 38, 129, 88, 20, 93,
                  193, 70, 150, 134, 249, 70, 175, 228, 204, 106, 131, 71, 196, 97, 214, 93]),
      (''GTAC'', [214, 252, 172, 53, 86, 213, 245, 228, 171, 4, 103, 144, 94, 11, 168, 160,
                  33, 122, 57, 219, 252, 244, 200, 206, 126, 213, 131, 3, 218, 210, 192, 9]),
      (''TACG'', [206, 168, 87, 119, 91, 247, 133, 151, 190, 154, 54, 17, 61, 74, 97, 193,
                  24, 193, 104, 224, 219, 113, 45, 106, 236, 174, 227, 113, 38, 246, 76, 213]),
      (''AAAAAAAAAAAAAAAAAAAAAAAAAAAAAA'',
                 [55, 185, 64, 60, 248, 140, 194, 99, 157, 10, 17, 141, 117, 122, 67, 160,
                  255, 109, 72, 113, 130, 55, 7, 171, 106, 139, 181, 107, 198, 142, 142, 121])]"

definition example_sha :: "string \<Rightarrow> string" where
  "example_sha kmer =
     (case map_of example_digests kmer of
        Some d \<Rightarrow> map char_of d
      | None \<Rightarrow> replicate 32 (CHR 0x00))"

text \<open>A sample file with one record of eight bases.\<close>

definition example_file :: string where
  "example_file = ''>r'' @ [CHR 0x0A] @ ''ACGTACGT'' @ [CHR 0x0A]"

section \<open>Slicing the hash: what the rounds compute\<close>

lemma nextposition_arith:
  "nextposition bfs h = (h div 2 ^ bfs, (h mod 2 ^ bfs) div 8, (h mod 2 ^ bfs) mod 8)"
proof -
  have a: "h AND (2 ^ bfs - 1) = h mod 2 ^ bfs"
    by (simp flip: mask_eq_exp_minus_1 take_bit_eq_mask add: take_bit_eq_mod)
  have b: "x AND 7 = x mod 8" for x :: int
    using take_bit_eq_mask [of 3 x] by (simp add: take_bit_eq_mod mask_eq_exp_minus_1)
  show ?thesis
    by (simp add: nextposition_def Let_def a b drop_bit_eq_div)
qed

lemma query_nextposition_eq: "query_nextposition bfs h = nextposition bfs h"
  by (simp add: query_nextposition_def nextposition_def)

lemma query_positions_eq: "query_positions k bfs h = positions k bfs h"
  by (induction k arbitrary: h) (simp_all add: query_nextposition_eq)




lemma nextposition_bounds:
  assumes "nextposition bfs h = (h', byp, bip)" and "3 \<le> bfs"
  shows "0 \<le> byp \<and> byp < 2 ^ (bfs - 3) \<and> 0 \<le> bip \<and> bip < 8"
proof -
  define position where "position = h mod 2 ^ bfs"
  have "bfs = (bfs - 3) + 3" using assms(2) by simp
  then have "(2::int) ^ bfs = 2 ^ (bfs - 3) * 2 ^ 3" by (metis power_add)
  then have e: "(2::int) ^ bfs = 2 ^ (bfs - 3) * 8" by simp
  have p: "0 \<le> position" "position < 2 ^ (bfs - 3) * 8"
    unfolding position_def using e by (simp_all flip: e)
  have byp: "byp = position div 8" and bip: "bip = position mod 8"
    using assms(1) by (simp_all add: nextposition_arith position_def)
  have "position div 8 < 2 ^ (bfs - 3)" using p by (simp add: div_less_iff_less_mult)
  moreover have "0 \<le> position div 8" using p by simp
  ultimately show ?thesis by (simp add: byp bip)
qed

lemma bloom_bytes_eq: "bloom_bytes = 2 ^ 32"
  by (simp add: bloom_bytes_def round_div8_def bloom_m_def)


section \<open>The bit array: reads and writes stay in range\<close>

lemma py_index_update: "py_index (xs[j := v]) i = py_index xs i"
  by (simp add: py_index_def)

lemma py_index_less: "py_index xs i = Some j \<Longrightarrow> j < length xs"
  by (auto simp: py_index_def Let_def split: if_splits)

lemma py_index_nonneg: "0 \<le> i \<Longrightarrow> i < int (length xs) \<Longrightarrow> py_index xs i = Some (nat i)"
  by (simp add: py_index_def)

lemma and_pow2_bit: "(x AND 2 ^ n \<noteq> 0) \<longleftrightarrow> bit x n" for x :: int
  using bit_iff_and_push_bit_not_eq_0 [of x n] by simp

lemma setbit_ok:
  assumes "0 \<le> a" "a < int (length bf)" "0 \<le> b" "b < 8"
  shows "\<exists>bf'. setbit bf a b = Inr bf' \<and> length bf' = length bf"
proof -
  have "(2::int) ^ nat b < 2 ^ 8" using assms(3,4) by (intro power_strict_increasing) auto
  then have "uint (bf ! nat a) OR 2 ^ nat b < 2 ^ 8"
    by (intro OR_upper) (simp_all, rule uint_lt2p [where 'a = 8, simplified])
  moreover have "0 \<le> uint (bf ! nat a) OR 2 ^ nat b" by simp
  ultimately show ?thesis
    using assms by (simp add: setbit_def py_index_nonneg shl1_def Let_def)
qed

lemma isbitset_ok:
  assumes "0 \<le> a" "a < int (length bf)" "0 \<le> b"
  shows "\<exists>r. isbitset bf a b = Inr r"
  using assms by (simp add: isbitset_def py_index_nonneg shl1_def)

lemma pow2_le_int: "2 ^ n \<le> m \<Longrightarrow> (2::int) ^ n \<le> int m"
  by (metis of_nat_le_iff of_nat_numeral of_nat_power)

lemma set_rounds_ok:
  assumes "3 \<le> bfs" "2 ^ (bfs - 3) \<le> length bf"
  shows "\<exists>bf'. set_rounds k bfs h bf = Inr bf' \<and> length bf' = length bf"
  using assms(2)
proof (induction k arbitrary: h bf)
  case 0
  show ?case by simp
next
  case (Suc k)
  obtain h1 a b where np: "nextposition bfs h = (h1, a, b)" by (cases "nextposition bfs h")
  from nextposition_bounds [OF np assms(1)] pow2_le_int [OF Suc.prems]
  have "0 \<le> a" "a < int (length bf)" "0 \<le> b" "b < 8" by linarith+
  then obtain bf1 where s: "setbit bf a b = Inr bf1" "length bf1 = length bf"
    using setbit_ok by blast
  with Suc.IH [of bf1 h1] Suc.prems show ?case by (simp add: np)
qed

lemma check_rounds_ok:
  assumes "3 \<le> bfs" "2 ^ (bfs - 3) \<le> length bf"
  shows "\<exists>r. check_rounds k bfs h bf there = Inr r"
proof (induction k arbitrary: h there)
  case 0
  show ?case by simp
next
  case (Suc k)
  obtain h1 a b where np: "nextposition bfs h = (h1, a, b)" by (cases "nextposition bfs h")
  from nextposition_bounds [OF np assms(1)] pow2_le_int [OF assms(2)]
  have "0 \<le> a" "a < int (length bf)" "0 \<le> b" by linarith+
  then obtain r where "isbitset bf a b = Inr r" using isbitset_ok by blast
  with Suc.IH show ?case by (simp add: np query_nextposition_eq)
qed

lemma add_kmers_ok:
  assumes "3 \<le> bfs" "2 ^ (bfs - 3) \<le> length bf"
  shows "\<exists>bf'. add_kmers k bfs sha bo bf mers = Inr bf' \<and> length bf' = length bf"
  using assms(2)
proof (induction mers arbitrary: bf)
  case Nil
  show ?case by simp
next
  case (Cons mer mers)
  from set_rounds_ok [OF assms(1) Cons.prems, of k "hashit sha bo mer"]
  obtain bf1 where "add_kmer k bfs sha bo bf mer = Inr bf1" "length bf1 = length bf"
    by (auto simp: add_kmer_def)
  with Cons.IH [of bf1] Cons.prems show ?case by simp
qed

lemma count_kmers_ok:
  assumes "3 \<le> bfs" "2 ^ (bfs - 3) \<le> length bf"
  shows "\<exists>r. count_kmers k bfs sha bo bf mers t u = Inr r"
proof (induction mers arbitrary: t u)
  case Nil
  show ?case by simp
next
  case (Cons mer mers)
  from check_rounds_ok [OF assms, of k "query_hashit sha bo mer" True]
  obtain r where "kmer_there k bfs sha bo bf mer = Inr r"
    by (auto simp: kmer_there_def)
  with Cons.IH show ?case by simp
qed


text \<open>
  Claim C9. With \<open>bitfieldsize = 35\<close> and \<open>m = 2 ^ 35\<close> the filter has
  \<open>round(m/8) = 2 ^ 32\<close> bytes, every pair that \<^verbatim>\<open>nextposition\<close> returns (in either
  program) has a byte position from 0 up to but excluding \<open>2 ^ 32\<close> and a bit
  position from 0 to 7, and so no \<^verbatim>\<open>setbit\<close> call of the build and no
  \<^verbatim>\<open>isbitset\<close> call of the query leaves the filter: both k-mer loops run through
  any list of k-mers without an exception, and the filter keeps its length.
\<close>

theorem filter_access_in_bounds:
  assumes "length bloomfilter = bloom_bytes"
  shows "bloom_bytes = 2 ^ 32 \<and>
    (\<forall>h h' byteposition bitposition.
       nextposition bloom_bitfieldsize h = (h', byteposition, bitposition) \<or>
       query_nextposition bloom_bitfieldsize h = (h', byteposition, bitposition) \<longrightarrow>
       0 \<le> byteposition \<and> byteposition < int (length bloomfilter) \<and>
       0 \<le> bitposition \<and> bitposition < 8) \<and>
    (\<exists>bloomfilter'. add_kmers bloom_k bloom_bitfieldsize sha bo bloomfilter mers = Inr bloomfilter'
       \<and> length bloomfilter' = bloom_bytes) \<and>
    (\<exists>r. count_kmers bloom_k bloom_bitfieldsize sha bo bloomfilter mers 0 0 = Inr r)"
proof -
  have b3: "3 \<le> bloom_bitfieldsize" by (simp add: bloom_bitfieldsize_def)
  have len: "2 ^ (bloom_bitfieldsize - 3) \<le> length bloomfilter"
    by (simp add: assms bloom_bytes_eq bloom_bitfieldsize_def)
  have "0 \<le> byp \<and> byp < int (length bloomfilter) \<and> 0 \<le> bip \<and> bip < 8"
    if "nextposition bloom_bitfieldsize h = (h', byp, bip)" for h h' byp bip
    using nextposition_bounds [OF that b3] pow2_le_int [OF len] by linarith
  then show ?thesis
    using add_kmers_ok [OF b3 len, of bloom_k sha bo mers]
      count_kmers_ok [OF b3 len, of bloom_k sha bo mers 0 0]
    by (simp add: bloom_bytes_eq assms query_nextposition_eq)
qed

theorem filter_access_in_bounds_witness:
  "length empty_bloomfilter = bloom_bytes \<and>
   nextposition bloom_bitfieldsize (2 ^ 35 - 1) = (0, 2 ^ 32 - 1, 7) \<and>
   (\<exists>bloomfilter'.
      add_kmers bloom_k bloom_bitfieldsize example_sha Little empty_bloomfilter
        [''AAAAAAAAAAAAAAAAAAAAAAAAAAAAAA''] = Inr bloomfilter' \<and>
      length bloomfilter' = bloom_bytes) \<and>
   (\<exists>r. count_kmers bloom_k bloom_bitfieldsize example_sha Little empty_bloomfilter
      [''AAAAAAAAAAAAAAAAAAAAAAAAAAAAAA''] 0 0 = Inr r)"
proof -
  have l: "length empty_bloomfilter = bloom_bytes" by (simp add: empty_bloomfilter_def)
  have n: "nextposition bloom_bitfieldsize (2 ^ 35 - 1) = (0, 2 ^ 32 - 1, 7)"
    by (simp add: nextposition_arith bloom_bitfieldsize_def)
  show ?thesis
    using filter_access_in_bounds [OF l, of example_sha Little "[''AAAAAAAAAAAAAAAAAAAAAAAAAAAAAA'']"] l n
    by blast
qed

section \<open>No false negatives\<close>

lemma isbitset_True_iff:
  "isbitset bf a b = Inr True \<longleftrightarrow>
     (\<exists>j. py_index bf a = Some j \<and> 0 \<le> b \<and> bit (bf ! j) (nat b))"
  by (auto simp: isbitset_def shl1_def bit_uint_iff and_pow2_bit
      split: option.splits dest: bit_imp_le_length)

lemma setbit_Inr:
  assumes "setbit bf a b = Inr bf'"
  obtains j where "py_index bf a = Some j" "0 \<le> b" "nat b < 8"
    "bf' = bf[j := (bf ! j) OR push_bit (nat b) 1]"
proof -
  define v where "v = uint (bf ! the (py_index bf a)) OR push_bit (nat b) 1"
  from assms obtain j where j: "py_index bf a = Some j" and b: "0 \<le> b"
    and v: "0 \<le> v" "v < 256"
    and bf': "bf' = bf[j := word_of_int v]"
    by (auto simp: setbit_def shl1_def Let_def v_def split: option.splits if_splits)
  have w: "(word_of_int v :: 8 word) = (bf ! j) OR push_bit (nat b) 1"
    unfolding v_def j option.sel by (rule bit_word_eqI) (auto simp: bit_simps)
  have "take_bit 8 v = v" using v by (simp add: take_bit_int_eq_self)
  then have "bit v (nat b) \<longleftrightarrow> nat b < 8 \<and> bit v (nat b)"
    by (metis bit_take_bit_iff)
  moreover have "bit v (nat b)" by (simp add: v_def bit_simps)
  ultimately have "nat b < 8" by simp
  with j b bf' w that show thesis by simp
qed

lemma setbit_sets:
  assumes "setbit bf a b = Inr bf'" shows "isbitset bf' a b = Inr True"
proof -
  from assms obtain j where j: "py_index bf a = Some j" "0 \<le> b" "nat b < 8"
    "bf' = bf[j := (bf ! j) OR push_bit (nat b) 1]" by (rule setbit_Inr)
  have "py_index bf' a = Some j" using j by (simp add: py_index_update)
  moreover have "bit (bf' ! j) (nat b)"
    using j py_index_less [OF j(1)] by (simp add: bit_simps)
  ultimately show ?thesis using j(2) by (auto simp: isbitset_True_iff)
qed

lemma setbit_keeps:
  assumes "setbit bf a b = Inr bf'" and "isbitset bf c d = Inr True"
  shows "isbitset bf' c d = Inr True"
proof -
  from assms(1) obtain j where j: "py_index bf a = Some j" "0 \<le> b" "nat b < 8"
    "bf' = bf[j := (bf ! j) OR push_bit (nat b) 1]" by (rule setbit_Inr)
  from assms(2) obtain i where i: "py_index bf c = Some i" "0 \<le> d" "bit (bf ! i) (nat d)"
    by (auto simp: isbitset_True_iff)
  have "py_index bf' c = Some i" using i j by (simp add: py_index_update)
  moreover have "bit (bf' ! i) (nat d)"
    using i j py_index_less [OF j(1)] by (cases "i = j") (simp_all add: bit_simps)
  ultimately show ?thesis using i(2) by (auto simp: isbitset_True_iff)
qed

lemma set_rounds_keeps:
  "set_rounds k bfs h bf = Inr bf' \<Longrightarrow> isbitset bf c d = Inr True \<Longrightarrow>
   isbitset bf' c d = Inr True"
  by (induction k arbitrary: h bf)
     (auto split: prod.splits sum.splits dest: setbit_keeps)

lemma set_rounds_sets:
  "set_rounds k bfs h bf = Inr bf' \<Longrightarrow> (c, d) \<in> set (positions k bfs h) \<Longrightarrow>
   isbitset bf' c d = Inr True"
proof (induction k arbitrary: h bf)
  case 0
  then show ?case by simp
next
  case (Suc k)
  obtain h1 a b where np: "nextposition bfs h = (h1, a, b)" by (cases "nextposition bfs h")
  with Suc.prems(1) obtain bf1 where s: "setbit bf a b = Inr bf1"
    and r: "set_rounds k bfs h1 bf1 = Inr bf'"
    by (auto split: sum.splits)
  from Suc.prems(2) np have "(c, d) = (a, b) \<or> (c, d) \<in> set (positions k bfs h1)" by simp
  then show ?case
  proof
    assume "(c, d) = (a, b)"
    with setbit_sets [OF s] set_rounds_keeps [OF r] show ?thesis by simp
  next
    assume "(c, d) \<in> set (positions k bfs h1)"
    with Suc.IH [OF r] show ?thesis by simp
  qed
qed

lemma check_rounds_True:
  "(\<And>c d. (c, d) \<in> set (positions k bfs h) \<Longrightarrow> isbitset bf c d = Inr True) \<Longrightarrow>
   check_rounds k bfs h bf there = Inr there"
proof (induction k arbitrary: h there)
  case 0
  show ?case by simp
next
  case (Suc k)
  obtain h1 a b where np: "nextposition bfs h = (h1, a, b)"
    by (cases "nextposition bfs h")
  have "isbitset bf a b = Inr True" using Suc.prems [of a b] np by simp
  moreover have "check_rounds k bfs h1 bf there = Inr there"
    using Suc.prems np by (intro Suc.IH) simp
  ultimately show ?case using np by (simp add: query_nextposition_eq)
qed

lemma check_rounds_Inr_True:
  "check_rounds k bfs h bf there = Inr True \<Longrightarrow>
   there \<and> (\<forall>(c, d) \<in> set (positions k bfs h). isbitset bf c d = Inr True)"
proof (induction k arbitrary: h there)
  case 0
  then show ?case by simp
next
  case (Suc k)
  obtain h1 a b where np: "nextposition bfs h = (h1, a, b)"
    by (cases "nextposition bfs h")
  from Suc.prems np obtain r where r: "isbitset bf a b = Inr r"
    and c: "check_rounds k bfs h1 bf (if r = False then False else there) = Inr True"
    by (auto simp: query_nextposition_eq split: sum.splits)
  from Suc.IH [OF c] have "r" "there"
    and "\<forall>(c, d) \<in> set (positions k bfs h1). isbitset bf c d = Inr True"
    by (auto split: if_splits)
  with r np show ?case by simp
qed

lemma kmer_there_iff:
  "kmer_there k bfs sha bo bf mer = Inr True \<longleftrightarrow>
   (\<forall>(c, d) \<in> set (positions k bfs (hashit sha bo mer)). isbitset bf c d = Inr True)"
  unfolding kmer_there_def query_hashit_def hashit_def
  using check_rounds_Inr_True [of k bfs _ bf True] check_rounds_True [of k bfs _ bf True]
  by blast

lemma add_kmer_there:
  "add_kmer k bfs sha bo bf mer = Inr bf' \<Longrightarrow> kmer_there k bfs sha bo bf' mer = Inr True"
  unfolding kmer_there_iff add_kmer_def using set_rounds_sets by blast

lemma add_kmer_keeps:
  "add_kmer k bfs sha bo bf mer = Inr bf' \<Longrightarrow> kmer_there k bfs sha bo bf mer' = Inr True \<Longrightarrow>
   kmer_there k bfs sha bo bf' mer' = Inr True"
  unfolding kmer_there_iff add_kmer_def using set_rounds_keeps by blast

lemma add_kmers_keeps:
  "add_kmers k bfs sha bo bf mers = Inr bf' \<Longrightarrow> kmer_there k bfs sha bo bf mer = Inr True \<Longrightarrow>
   kmer_there k bfs sha bo bf' mer = Inr True"
  by (induction mers arbitrary: bf) (auto split: sum.splits dest: add_kmer_keeps)

lemma add_kmers_there:
  "add_kmers k bfs sha bo bf mers = Inr bf' \<Longrightarrow> mer \<in> set mers \<Longrightarrow>
   kmer_there k bfs sha bo bf' mer = Inr True"
proof (induction mers arbitrary: bf)
  case Nil
  then show ?case by simp
next
  case (Cons m mers)
  from Cons.prems(1) obtain bf1 where a: "add_kmer k bfs sha bo bf m = Inr bf1"
    and r: "add_kmers k bfs sha bo bf1 mers = Inr bf'"
    by (auto split: sum.splits)
  show ?case
  proof (cases "mer = m")
    case True
    with add_kmer_there [OF a] add_kmers_keeps [OF r] show ?thesis by simp
  next
    case False
    with Cons.prems(2) Cons.IH [OF r] show ?thesis by simp
  qed
qed

lemma addtobloomfilter_Cons:
  assumes "addtobloomfilter k bfs sha bo file ((i0, i1, i2, i3) # fastaindex) kmer bf = Some (Inr bf')"
  obtains raw seqindex bf1 where "file_read file i2 (i3 - i2 + 1) = Inr raw"
    "indexsequence (sanitize raw) = Some seqindex"
    "add_kmers k bfs sha bo bf (seq_kmers kmer (sanitize raw) seqindex) = Inr bf1"
    "addtobloomfilter k bfs sha bo file fastaindex kmer bf1 = Some (Inr bf')"
  using assms by (auto simp: Let_def split: sum.splits option.splits)

lemma addtobloomfilter_keeps:
  "addtobloomfilter k bfs sha bo file fastaindex kmer bf = Some (Inr bf') \<Longrightarrow>
   kmer_there k bfs sha bo bf mer = Inr True \<Longrightarrow> kmer_there k bfs sha bo bf' mer = Inr True"
proof (induction fastaindex arbitrary: bf)
  case Nil
  then show ?case by simp
next
  case (Cons idx fastaindex)
  obtain i0 i1 i2 i3 where idx: "idx = (i0, i1, i2, i3)" by (cases idx)
  from Cons.prems(1) [unfolded idx] show ?case
  proof (rule addtobloomfilter_Cons)
    fix raw seqindex bf1
    assume "add_kmers k bfs sha bo bf (seq_kmers kmer (sanitize raw) seqindex) = Inr bf1"
      and "addtobloomfilter k bfs sha bo file fastaindex kmer bf1 = Some (Inr bf')"
    with Cons.prems(2) Cons.IH [of bf1] add_kmers_keeps show ?thesis by blast
  qed
qed


text \<open>
  Claim C1. No false negatives: when the build has returned the filter
  \<open>bloomfilter'\<close>, every k-mer it went through (the k-mers of the sanitized sequence
  of any record of the index it was given) passes the membership test of
  \<^verbatim>\<open>humansample\<close> on \<open>bloomfilter'\<close>: all \<open>k\<close> bits are found set.
\<close>

theorem no_false_negatives:
  assumes "addtobloomfilter k bitfieldsize sha bo file fastaindex kmer bloomfilter
             = Some (Inr bloomfilter')"
    and "(idx0, idx1, idx2, idx3) \<in> set fastaindex"
    and "file_read file idx2 (idx3 - idx2 + 1) = Inr raw"
    and "indexsequence (sanitize raw) = Some seqindex"
    and "mer \<in> set (seq_kmers kmer (sanitize raw) seqindex)"
  shows "kmer_there k bitfieldsize sha bo bloomfilter' mer = Inr True"
  using assms(1,2)
proof (induction fastaindex arbitrary: bloomfilter)
  case Nil
  then show ?case by simp
next
  case (Cons idx fastaindex)
  obtain i0 i1 i2 i3 where idx: "idx = (i0, i1, i2, i3)" by (cases idx)
  from Cons.prems(1) [unfolded idx] show ?case
  proof (rule addtobloomfilter_Cons)
    fix raw' seqindex' bf1
    assume rd: "file_read file i2 (i3 - i2 + 1) = Inr raw'"
      and ix: "indexsequence (sanitize raw') = Some seqindex'"
      and ad: "add_kmers k bitfieldsize sha bo bloomfilter (seq_kmers kmer (sanitize raw') seqindex') = Inr bf1"
      and rest: "addtobloomfilter k bitfieldsize sha bo file fastaindex kmer bf1 = Some (Inr bloomfilter')"
    show ?thesis
    proof (cases "(idx0, idx1, idx2, idx3) = idx")
      case True
      with idx rd ix assms(3,4) have "raw' = raw" "seqindex' = seqindex" by auto
      with ad assms(5) have "kmer_there k bitfieldsize sha bo bf1 mer = Inr True"
        using add_kmers_there by blast
      with rest show ?thesis by (rule addtobloomfilter_keeps)
    next
      case False
      with Cons.prems(2) have "(idx0, idx1, idx2, idx3) \<in> set fastaindex" by auto
      with rest show ?thesis by (rule Cons.IH)
    qed
  qed
qed

theorem no_false_negatives_witness:
  "addtobloomfilter 2 6 example_sha Little example_file [(0, 2, 3, 11)] 4 (replicate 32 0)
     = Some (Inr [16, 64, 64, 32, 8, 1, 8, 16, 0, 0, 0, 0, 0, 0, 0, 0,
                  0, 0, 0, 0, 0, 0, 0, 0, 0, 0, 0, 0, 0, 0, 0, 0]) \<and>
   file_read example_file 3 (11 - 3 + 1) = Inr (''ACGTACGT'' @ [CHR 0x0A]) \<and>
   indexsequence (sanitize (''ACGTACGT'' @ [CHR 0x0A])) = Some [(0, 8)] \<and>
   ''GTAC'' \<in> set (seq_kmers 4 (sanitize (''ACGTACGT'' @ [CHR 0x0A])) [(0, 8)]) \<and>
   kmer_there 2 6 example_sha Little
     [16, 64, 64, 32, 8, 1, 8, 16, 0, 0, 0, 0, 0, 0, 0, 0,
      0, 0, 0, 0, 0, 0, 0, 0, 0, 0, 0, 0, 0, 0, 0, 0] ''GTAC'' = Inr True"
proof -
  have a: "addtobloomfilter 2 6 example_sha Little example_file [(0, 2, 3, 11)] 4 (replicate 32 0)
     = Some (Inr [16, 64, 64, 32, 8, 1, 8, 16, 0, 0, 0, 0, 0, 0, 0, 0,
                  0, 0, 0, 0, 0, 0, 0, 0, 0, 0, 0, 0, 0, 0, 0, 0])"
    by code_simp
  have b: "file_read example_file 3 (11 - 3 + 1) = Inr (''ACGTACGT'' @ [CHR 0x0A])"
    by code_simp
  have c: "indexsequence (sanitize (''ACGTACGT'' @ [CHR 0x0A])) = Some [(0, 8)]"
    by code_simp
  have d: "''GTAC'' \<in> set (seq_kmers 4 (sanitize (''ACGTACGT'' @ [CHR 0x0A])) [(0, 8)])"
    by code_simp
  from no_false_negatives [OF a _ b c d] a b c d show ?thesis by simp
qed

section \<open>Build and query compute the same addresses\<close>

text \<open>
  Claim C5, as amended. For one byte order, the addresses are a function of the
  k-mer alone and \<^verbatim>\<open>query.py\<close> computes exactly the pairs \<^verbatim>\<open>bloom.py\<close> computes:
  the same hash number and the same \<open>k\<close> pairs. The byte order is
  \<^verbatim>\<open>sys.byteorder\<close>, that of the machine the program runs on.
\<close>

theorem addresses_agree_for_one_byteorder:
  "query_hashit sha bo kmer = hashit sha bo kmer \<and>
   query_positions k bitfieldsize (query_hashit sha bo kmer) =
     positions k bitfieldsize (hashit sha bo kmer)"
  by (simp add: query_hashit_def hashit_def query_positions_eq)

text \<open>
  The byte order is not fixed by the programs: for the 30-mer of thirty \<open>A\<close>, a build
  on a little-endian machine and a query on a big-endian machine compute different
  pairs from the same digest.
\<close>

theorem addresses_differ_across_byteorders:
  "positions bloom_k bloom_bitfieldsize
     (hashit example_sha Little ''AAAAAAAAAAAAAAAAAAAAAAAAAAAAAA'') \<noteq>
   query_positions bloom_k bloom_bitfieldsize
     (query_hashit example_sha Big ''AAAAAAAAAAAAAAAAAAAAAAAAAAAAAA'')"
proof -
  have l: "positions bloom_k bloom_bitfieldsize
      (hashit example_sha Little ''AAAAAAAAAAAAAAAAAAAAAAAAAAAAAA'') =
      [(126359334, 7), (1972308531, 7), (986089605, 2), (3757704247, 5)]"
    by code_simp
  have b: "query_positions bloom_k bloom_bitfieldsize
      (query_hashit example_sha Big ''AAAAAAAAAAAAAAAAAAAAAAAAAAAAAA'') =
      [(2027016655, 1), (2913611477, 5), (952179587, 6), (974124756, 4)]"
    by code_simp
  show ?thesis unfolding l b by simp
qed

section \<open>Searching bytes\<close>

lemma find_aux_cases:
  "(find_aux c xs i = - 1 \<and> c \<notin> set xs) \<or>
   (\<exists>n < length xs. find_aux c xs i = i + int n \<and> xs ! n = c \<and> c \<notin> set (take n xs))"
  if "0 \<le> i"
  using that
proof (induction xs arbitrary: i)
  case Nil
  show ?case by simp
next
  case (Cons x xs)
  show ?case
  proof (cases "x = c")
    case True
    then have "find_aux c (x # xs) i = i + int 0 \<and> (x # xs) ! 0 = c \<and> c \<notin> set (take 0 (x # xs))"
      by simp
    then show ?thesis by blast
  next
    case False
    from Cons.prems have "0 \<le> i + 1" by simp
    from Cons.IH [OF this] show ?thesis
    proof
      assume "find_aux c xs (i + 1) = - 1 \<and> c \<notin> set xs"
      with False show ?thesis by simp
    next
      assume "\<exists>n<length xs. find_aux c xs (i + 1) = i + 1 + int n \<and> xs ! n = c \<and> c \<notin> set (take n xs)"
      then obtain n where n: "n < length xs" "find_aux c xs (i + 1) = i + 1 + int n" "xs ! n = c"
        "c \<notin> set (take n xs)" by blast
      with False have "Suc n < length (x # xs) \<and> find_aux c (x # xs) i = i + int (Suc n) \<and>
        (x # xs) ! Suc n = c \<and> c \<notin> set (take (Suc n) (x # xs))" by simp
      then show ?thesis by blast
    qed
  qed
qed

text \<open>What \<^verbatim>\<open>find\<close> returns for a start that is not negative.\<close>

lemma bytes_find_cases:
  assumes "0 \<le> start"
  shows "(bytes_find s c start = - 1 \<and> c \<notin> set (drop (nat start) s)) \<or>
   (\<exists>n. nat start \<le> n \<and> n < length s \<and> bytes_find s c start = int n \<and> s ! n = c \<and>
        c \<notin> set (take (n - nat start) (drop (nat start) s)))"
proof (cases "int (length s) < start")
  case True
  then show ?thesis using assms by (simp add: bytes_find_def)
next
  case False
  then have bf: "bytes_find s c start = find_aux c (drop (nat start) s) start"
    using assms by (simp add: bytes_find_def)
  from find_aux_cases [OF assms, of c "drop (nat start) s"] show ?thesis
  proof
    assume "find_aux c (drop (nat start) s) start = - 1 \<and> c \<notin> set (drop (nat start) s)"
    then show ?thesis by (simp add: bf)
  next
    assume "\<exists>n<length (drop (nat start) s). find_aux c (drop (nat start) s) start = start + int n \<and>
      drop (nat start) s ! n = c \<and> c \<notin> set (take n (drop (nat start) s))"
    then obtain n where n: "n < length (drop (nat start) s)"
      "find_aux c (drop (nat start) s) start = start + int n"
      "drop (nat start) s ! n = c" "c \<notin> set (take n (drop (nat start) s))" by blast
    let ?m = "nat start + n"
    have "nat start \<le> ?m" "?m < length s" "bytes_find s c start = int ?m" "s ! ?m = c"
      "c \<notin> set (take (?m - nat start) (drop (nat start) s))"
      using n assms by (simp_all add: bf)
    then show ?thesis by blast
  qed
qed

lemma bytes_find_found:
  assumes "0 \<le> start" "bytes_find s c start \<noteq> - 1"
  obtains n where "nat start \<le> n" "n < length s" "bytes_find s c start = int n" "s ! n = c"
    "c \<notin> set (take (n - nat start) (drop (nat start) s))"
  using bytes_find_cases [OF assms(1), of s c] assms(2) by blast

lemma bytes_find_range:
  assumes "0 \<le> start"
  shows "bytes_find s c start = - 1 \<or> (start \<le> bytes_find s c start \<and> bytes_find s c start < int (length s))"
  using bytes_find_cases [OF assms, of s c] by auto

lemma bytes_find_canonical:
  assumes "0 \<le> p" "canonical ch"
  shows "bytes_find seq ch p = - 1 \<or>
     (p \<le> bytes_find seq ch p \<and> bytes_find seq ch p < int (length seq) \<and>
      canonical (seq ! nat (bytes_find seq ch p)))"
proof (cases "bytes_find seq ch p = - 1")
  case True
  then show ?thesis by simp
next
  case False
  with assms(1) obtain n where "nat p \<le> n" "n < length seq" "bytes_find seq ch p = int n"
    "seq ! n = ch" by (rule bytes_find_found)
  with assms show ?thesis by simp
qed

lemma min_list_in: "xs \<noteq> [] \<Longrightarrow> min_list xs \<in> set xs" for xs :: "int list"
  by (simp add: min_list_Min)

lemma find_realstart_Some:
  assumes "0 \<le> pointer" "find_realstart seq pointer = Some realstart"
  shows "pointer \<le> realstart \<and> realstart < int (length seq) \<and> canonical (seq ! nat realstart)"
proof -
  define potenstart where "potenstart =
    [bytes_find seq CHR ''A'' pointer, bytes_find seq CHR ''T'' pointer,
     bytes_find seq CHR ''G'' pointer, bytes_find seq CHR ''C'' pointer]"
  have good: "x = - 1 \<or> (pointer \<le> x \<and> x < int (length seq) \<and> canonical (seq ! nat x))"
    if "x \<in> set potenstart" for x
  proof -
    from that obtain ch where "canonical ch" "x = bytes_find seq ch pointer"
      unfolding potenstart_def canonical_def by auto
    with bytes_find_canonical [OF assms(1), of ch seq] show ?thesis by simp
  qed
  have ne: "potenstart \<noteq> []" by (simp add: potenstart_def)
  have fr: "find_realstart seq pointer =
    (if min_list potenstart = - 1 then
       (if filter (\<lambda>i. - 1 < i) potenstart = [] then None
        else Some (min_list (filter (\<lambda>i. - 1 < i) potenstart)))
     else Some (min_list potenstart))"
    unfolding find_realstart_def potenstart_def Let_def length_0_conv ..
  have "realstart \<in> set potenstart \<and> realstart \<noteq> - 1"
  proof (cases "min_list potenstart = - 1")
    case False
    with assms(2) fr min_list_in [OF ne] show ?thesis by auto
  next
    case True
    with assms(2) fr have f: "filter (\<lambda>i. - 1 < i) potenstart \<noteq> []"
      and r: "realstart = min_list (filter (\<lambda>i. - 1 < i) potenstart)"
      by (auto split: if_splits)
    from min_list_in [OF f] have "realstart \<in> set (filter (\<lambda>i. - 1 < i) potenstart)"
      by (simp only: r)
    then show ?thesis by auto
  qed
  with good show ?thesis by blast
qed

section \<open>The loop of indexsequence\<close>

lemma find_realend_range:
  assumes "0 \<le> realstart" "realstart < int (length seq)" "seq ! nat realstart \<noteq> CHR ''N''"
  shows "realstart < find_realend seq realstart \<and> find_realend seq realstart \<le> int (length seq)"
proof (cases "bytes_find seq CHR ''N'' realstart = - 1")
  case True
  then show ?thesis using assms by (simp add: find_realend_def)
next
  case False
  with assms(1) obtain n where n: "nat realstart \<le> n" "n < length seq"
    "bytes_find seq CHR ''N'' realstart = int n" "seq ! n = CHR ''N''"
    by (rule bytes_find_found)
  from n(4) assms(3) have "n \<noteq> nat realstart" by auto
  with n(1) have "nat realstart < n" by simp
  with n assms(1) show ?thesis by (simp add: find_realend_def)
qed

lemma canonical_not_N: "canonical c \<Longrightarrow> c \<noteq> CHR ''N''"
  by (auto simp: canonical_def)

lemma loop_body_advances:
  assumes "0 \<le> pointer" "find_realstart seq pointer = Some realstart"
  shows "pointer \<le> realstart \<and> realstart < find_realend seq realstart \<and>
         find_realend seq realstart \<le> int (length seq)"
proof -
  from find_realstart_Some [OF assms]
  have r: "pointer \<le> realstart" "realstart < int (length seq)" "canonical (seq ! nat realstart)"
    by simp_all
  with assms(1) find_realend_range [of realstart seq] canonical_not_N show ?thesis by auto
qed

lemma indexsequence_loop_returns:
  "0 \<le> pointer \<Longrightarrow> \<exists>r. indexsequence_loop seq pointer seqindex = Some r"
proof (induction "length seq - nat pointer" arbitrary: pointer seqindex rule: less_induct)
  case less
  show ?case
  proof (cases "pointer < int (length seq)")
    case False
    then show ?thesis by (subst indexsequence_loop.simps) simp
  next
    case True
    show ?thesis
    proof (cases "find_realstart seq pointer")
      case None
      with True show ?thesis by (subst indexsequence_loop.simps) simp
    next
      case (Some realstart)
      from loop_body_advances [OF less.prems Some]
      have adv: "pointer \<le> realstart" "realstart < find_realend seq realstart"
        "find_realend seq realstart \<le> int (length seq)" by simp_all
      with less.prems have "length seq - nat (find_realend seq realstart) < length seq - nat pointer"
        "0 \<le> find_realend seq realstart"
        by linarith+
      from less.hyps [OF this]
      obtain r where "indexsequence_loop seq (find_realend seq realstart)
          (seqindex @ [(realstart, find_realend seq realstart)]) = Some r" by blast
      with True Some show ?thesis by (subst indexsequence_loop.simps) simp
    qed
  qed
qed


text \<open>
  Claim C10. \<^verbatim>\<open>indexsequence\<close> returns on every byte string. In an iteration that
  does not break, the run that is appended has \<open>realend > realstart \<ge> pointer\<close> (and
  \<open>realend\<close> is at most the length of the sequence); \<open>pointer\<close> becomes \<open>realend\<close>, so
  it grows in every iteration until the loop condition fails or no base is left.
\<close>

theorem indexsequence_terminates:
  "(\<exists>seqindex. indexsequence seq = Some seqindex) \<and>
   (0 \<le> pointer \<and> find_realstart seq pointer = Some realstart \<longrightarrow>
      pointer \<le> realstart \<and> realstart < find_realend seq realstart \<and>
      find_realend seq realstart \<le> int (length seq))"
  using indexsequence_loop_returns [of 0 seq "[]"] loop_body_advances [of pointer seq realstart]
  by (simp add: indexsequence_def)

theorem indexsequence_terminates_witness:
  "(\<exists>seqindex. indexsequence ''NNACGTNNNGGNTN'' = Some seqindex) \<and>
   (0::int) \<le> 6 \<and> find_realstart ''NNACGTNNNGGNTN'' 6 = Some 9 \<and>
   find_realend ''NNACGTNNNGGNTN'' 9 = 11"
proof -
  have a: "find_realstart ''NNACGTNNNGGNTN'' 6 = Some 9" by code_simp
  have b: "find_realend ''NNACGTNNNGGNTN'' 9 = 11" by code_simp
  from indexsequence_terminates [of "''NNACGTNNNGGNTN''" 6 9] a b show ?thesis by simp
qed


section \<open>What the translation table leaves unchanged\<close>

text \<open>
  Claim C3 says that every byte of the sanitized buffer is one of A, C, G, T, N and
  that every run holds canonical bases only. The table maps the lower-case codes
  \<open>s\<close> and \<open>w\<close> to N but has no entry for the upper-case codes \<open>S\<close> and \<open>W\<close> (nor for
  any other byte it does not list): the sequence \<open>ACSGT\<close> is returned unchanged, and
  \<^verbatim>\<open>indexsequence\<close> gives the single run \<open>(0, 5)\<close>, which holds the byte \<open>S\<close>.
\<close>

theorem sanitize_keeps_uppercase_S:
  "sanitize ''ACSGT'' = ''ACSGT'' \<and> indexsequence (sanitize ''ACSGT'') = Some [(0, 5)] \<and>
   sanitize ''ACSGT'' ! 2 = CHR ''S''"
  by code_simp

end
